theory Spec2Isabelle
  imports Main
begin

section \<open>Runtime conventions shared by the kernels\<close>

text \<open>
  The kernels are Python programs. Python integers are unbounded and are modelled as
  \<open>int\<close>. Standard output is a \<open>string\<close>; \<open>print(s)\<close> writes \<open>s\<close> followed by a
  newline. An exception that the runtime raises is a value of \<open>py_error\<close>, and a
  computation that may raise returns \<open>py_error + 'a\<close>.
\<close>

datatype py_error = OverflowError | IndexError

definition newline :: char where
  "newline = CHR 0x0A"

definition py_print :: "string \<Rightarrow> string" where
  "py_print s = s @ [newline]"

definition digit_char :: "nat \<Rightarrow> char" where
  "digit_char d = ''0123456789'' ! d"

fun digits_of :: "nat \<Rightarrow> string" where
  "digits_of n = (if n < 10 then [digit_char n] else digits_of (n div 10) @ [digit_char (n mod 10)])"

declare digits_of.simps [simp del]

text \<open>\<open>str(n)\<close> for an integer: the decimal digits, with a leading minus sign below zero.\<close>

definition py_str :: "int \<Rightarrow> string" where
  "py_str n = (if n < 0 then CHR ''-'' # digits_of (nat (- n)) else digits_of (nat n))"

fun bit_length :: "nat \<Rightarrow> nat" where
  "bit_length n = (if n = 0 then 0 else Suc (bit_length (n div 2)))"

declare bit_length.simps [simp del]

text \<open>
  \<open>float(n)\<close> for an integer \<open>n\<close>: the IEEE double nearest to \<open>n\<close> (53 significant bits,
  ties to even), or OverflowError when the rounded magnitude reaches \<open>2 ^ 1024\<close>. The
  double that results is always integral, so it is represented by the integer it equals.
\<close>

definition py_float :: "int \<Rightarrow> py_error + int" where
  "py_float n =
     (let a = nat \<bar>n\<bar>; e = bit_length a in
      if e \<le> 53 then Inr n
      else
        let sh = e - 53;
            q = a div 2 ^ sh;
            r = a mod 2 ^ sh;
            h = 2 ^ (sh - 1);
            q' = (if r > h \<or> (r = h \<and> odd q) then q + 1 else q);
            v = q' * 2 ^ sh
        in if v \<ge> 2 ^ 1024 then Inl OverflowError else Inr (sgn n * int v))"

text \<open>
  \<open>f"{v:.6f}"\<close> for an integral double \<open>v\<close>: its decimal digits, a point and six zeros.
\<close>

definition format_6f :: "int \<Rightarrow> string" where
  "format_6f v = py_str v @ ''.000000''"

text \<open>
  What was written to standard output is exactly one line: it ends with a newline and
  has no other.
\<close>

definition one_line :: "string \<Rightarrow> bool" where
  "one_line out \<longleftrightarrow> out \<noteq> [] \<and> last out = newline \<and> newline \<notin> set (butlast out)"

section \<open>Kernel loop-sum (chapter14/bench/cases/loopsum.py)\<close>

text \<open>
  \<open>for i in range(1, n + 1)\<close> runs over the list \<open>[1..n]\<close>, which is empty when
  \<open>n < 1\<close>; the running total is threaded through both loops.
\<close>

definition loopsum :: "int \<Rightarrow> int \<Rightarrow> int" where
  "loopsum n m =
     fold (\<lambda>i total. fold (\<lambda>j total. total + i * j) [1..m] total) [1..n] 0"

definition main_loopsum :: "py_error + string" where
  "main_loopsum =
     (case py_float (loopsum 10000 10000) of
        Inl e \<Rightarrow> Inl e
      | Inr v \<Rightarrow> Inr (py_print (format_6f v)))"

section \<open>Kernel fib (chapter15/bench/cases/fib39.py)\<close>

function fib :: "int \<Rightarrow> int" where
  "fib n = (if n < 3 then 1 else fib (n - 1) + fib (n - 2))"
  by pat_completeness auto
termination
  by (relation "measure (\<lambda>n. nat n)") auto

declare fib.simps [simp del]

definition main_fib :: "py_error + string" where
  "main_fib =
     (case py_float (fib 41) of
        Inl e \<Rightarrow> Inl e
      | Inr v \<Rightarrow> Inr (py_print (format_6f v)))"

text \<open>
  The sequence the specification names, with its terms counted from 1: the first and the
  second term are 1, and every later term is the sum of the two terms before it.
\<close>

fun fib_seq :: "nat \<Rightarrow> int" where
  "fib_seq (Suc 0) = 1"
| "fib_seq (Suc (Suc 0)) = 1"
| "fib_seq (Suc (Suc (Suc n))) = fib_seq (Suc (Suc n)) + fib_seq (Suc n)"

text \<open>
  Two neighbouring terms of a sequence with this recurrence, advanced \<open>k\<close> times: a way
  to evaluate a term in linearly many additions.
\<close>

fun fib_iter :: "nat \<Rightarrow> int \<Rightarrow> int \<Rightarrow> int" where
  "fib_iter 0 a b = a"
| "fib_iter (Suc k) a b = fib_iter k b (a + b)"

section \<open>Kernel prime-count (chapter19/bench/cases/primecount.py)\<close>

text \<open>
  \<open>divisible\<close> and \<open>is_prime_from\<close> recurse without a structural bound (\<open>divisible(5, 0)\<close>
  calls itself with the same arguments), so they are partial functions: \<open>None\<close> stands
  for a call that does not return, \<open>Some r\<close> for one that returns \<open>r\<close>. The interpreter's
  recursion limit is not modelled: the call stack is unbounded.
\<close>

partial_function (option) divisible :: "int \<Rightarrow> int \<Rightarrow> bool option" where
  "divisible n d =
     (if n < d then Some False
      else if n < d + 1 then Some True
      else divisible (n - d) d)"

partial_function (option) is_prime_from :: "int \<Rightarrow> int \<Rightarrow> bool option" where
  "is_prime_from n d =
     (if d * d > n then Some True
      else Option.bind (divisible n d)
             (\<lambda>b. if b then Some False else is_prime_from n (d + 1)))"

definition is_prime :: "int \<Rightarrow> bool option" where
  "is_prime n = (if n < 2 then Some False else is_prime_from n 2)"

text \<open>The body of the loop of \<open>count_primes\<close>, run over the values \<open>n\<close> still to visit.\<close>

fun count_primes_loop :: "int list \<Rightarrow> int \<Rightarrow> int option" where
  "count_primes_loop [] count = Some count"
| "count_primes_loop (n # ns) count =
     Option.bind (is_prime n)
       (\<lambda>b. count_primes_loop ns (if b then count + 1 else count))"

definition count_primes :: "int \<Rightarrow> int option" where
  "count_primes limit = count_primes_loop [2..limit] 0"

text \<open>The loop of \<open>main\<close> over \<open>range(10)\<close>, which ignores the loop variable.\<close>

fun main_primecount_loop :: "int list \<Rightarrow> int \<Rightarrow> int option" where
  "main_primecount_loop [] total' = Some total'"
| "main_primecount_loop (_ # rest) total' =
     Option.bind (count_primes 1900) (\<lambda>c. main_primecount_loop rest (total' + c))"

definition main_primecount :: "(py_error + string) option" where
  "main_primecount =
     Option.bind (main_primecount_loop [0..9] 0)
       (\<lambda>total. Some (case py_float total of
                         Inl e \<Rightarrow> Inl e
                       | Inr v \<Rightarrow> Inr (py_print (format_6f v))))"

text \<open>
  Primality as the specification means it: an integer of at least 2 that no integer
  strictly between 1 and itself divides.
\<close>

definition spec_prime :: "int \<Rightarrow> bool" where
  "spec_prime n \<longleftrightarrow> 2 \<le> n \<and> (\<forall>d \<in> {2..<n}. \<not> d dvd n)"

section \<open>Kernel lcg-hash (chapter25/bench/cases/lcg_hash.py)\<close>

definition lcg_N :: int where
  "lcg_N = 200000000"

definition lcg_MODV :: int where
  "lcg_MODV = 2147483647"

text \<open>
  The \<open>while i < N\<close> loop on the variables \<open>x\<close>, \<open>acc\<close> and \<open>i\<close>, with the bound as a
  parameter; it returns the final \<open>acc\<close>.
\<close>

function lcg_loop :: "int \<Rightarrow> int \<Rightarrow> int \<Rightarrow> int \<Rightarrow> int" where
  "lcg_loop n x acc i =
     (if i < n then
        let x' = (x * 48271) mod lcg_MODV;
            acc' = (acc + x' + i) mod lcg_MODV
        in lcg_loop n x' acc' (i + 1)
      else acc)"
  by pat_completeness auto
termination
  by (relation "measure (\<lambda>(n, x, acc, i). nat (n - i))") auto

declare lcg_loop.simps [simp del]

definition lcg_acc :: int where
  "lcg_acc = lcg_loop lcg_N 1234567 0 0"

definition main_lcg_hash :: string where
  "main_lcg_hash = py_print (py_str lcg_acc)"

section \<open>Kernel particles (chapter21/bench/cases/particles_heavy.py)\<close>

definition particles_MODV :: int where
  "particles_MODV = 1000000007"

definition particles_N :: int where
  "particles_N = 80000"

definition STEPS :: int where
  "STEPS = 800"

text \<open>
  Subscripting a list of length \<open>n\<close> with \<open>i\<close>: a negative \<open>i\<close> counts from the end, and an
  index outside \<open>[-n, n)\<close> raises IndexError.
\<close>

definition py_index :: "'a list \<Rightarrow> int \<Rightarrow> py_error + nat" where
  "py_index xs i =
     (let n = int (length xs); j = (if i < 0 then n + i else i)
      in if 0 \<le> j \<and> j < n then Inr (nat j) else Inl IndexError)"

record Vec2 =
  x :: int
  y :: int

record Particle =
  id_p :: int
  pos :: Vec2
  vel :: Vec2
  bins :: "int list"

definition Vec2_init :: "int \<Rightarrow> int \<Rightarrow> Vec2" where
  "Vec2_init x0 y0 = \<lparr>x = x0, y = y0\<rparr>"

definition Particle_init :: "int \<Rightarrow> Particle" where
  "Particle_init pid =
     \<lparr>id_p = pid,
      pos = Vec2_init pid (pid * 2),
      vel = Vec2_init (1 + pid) (2 - pid),
      bins = [pid + 0, pid + 1, pid + 2, pid + 3]\<rparr>"

text \<open>
  Every particle owns its two vectors and its list, and no object is shared, so the
  particles are values in a list: an assignment through \<open>p = ps[i]\<close> is written back
  at the index it was read from. The inner \<open>while i < N\<close> loop of a step:
\<close>

function particles_inner :: "int \<Rightarrow> int \<Rightarrow> Particle list \<Rightarrow> int \<Rightarrow> py_error + Particle list" where
  "particles_inner n step ps i =
     (if i < n then
        (case py_index ps i of
           Inl e \<Rightarrow> Inl e
         | Inr k \<Rightarrow>
             let p = ps ! k;
                 p = p\<lparr>pos := (pos p)\<lparr>x := x (pos p) + x (vel p)\<rparr>\<rparr>;
                 p = p\<lparr>pos := (pos p)\<lparr>y := y (pos p) + y (vel p)\<rparr>\<rparr>;
                 slot = step mod 4
             in (case py_index (bins p) slot of
                   Inl e \<Rightarrow> Inl e
                 | Inr s \<Rightarrow>
                     let p = p\<lparr>bins := (bins p)[s := bins p ! s + i + step]\<rparr>
                     in particles_inner n step (ps[k := p]) (i + 1)))
      else Inr ps)"
  by pat_completeness auto
termination
  by (relation "measure (\<lambda>(n, step, ps, i). nat (n - i))") auto

declare particles_inner.simps [simp del]

text \<open>The outer \<open>while step < STEPS\<close> loop.\<close>

function particles_steps :: "int \<Rightarrow> int \<Rightarrow> Particle list \<Rightarrow> int \<Rightarrow> py_error + Particle list" where
  "particles_steps n steps ps step =
     (if step < steps then
        (case particles_inner n step ps 0 of
           Inl e \<Rightarrow> Inl e
         | Inr ps' \<Rightarrow> particles_steps n steps ps' (step + 1))
      else Inr ps)"
  by pat_completeness auto
termination
  by (relation "measure (\<lambda>(n, steps, ps, step). nat (steps - step))") auto

declare particles_steps.simps [simp del]

text \<open>The checksum loop.\<close>

function particles_checksum :: "int \<Rightarrow> Particle list \<Rightarrow> int \<Rightarrow> int \<Rightarrow> py_error + int" where
  "particles_checksum n ps checksum i =
     (if i < n then
        (case py_index ps i of
           Inl e \<Rightarrow> Inl e
         | Inr k \<Rightarrow>
             let p = ps ! k in
             (case py_index (bins p) 0 of Inl e \<Rightarrow> Inl e | Inr j0 \<Rightarrow>
              case py_index (bins p) 1 of Inl e \<Rightarrow> Inl e | Inr j1 \<Rightarrow>
              case py_index (bins p) 2 of Inl e \<Rightarrow> Inl e | Inr j2 \<Rightarrow>
              case py_index (bins p) 3 of Inl e \<Rightarrow> Inl e | Inr j3 \<Rightarrow>
                particles_checksum n ps
                  ((checksum + x (pos p) + y (pos p) + bins p ! j0 + bins p ! j1
                      + bins p ! j2 + bins p ! j3) mod particles_MODV)
                  (i + 1)))
      else Inr checksum)"
  by pat_completeness auto
termination
  by (relation "measure (\<lambda>(n, ps, checksum, i). nat (n - i))") auto

declare particles_checksum.simps [simp del]

text \<open>The body of \<open>main\<close> up to the \<open>print\<close>, with \<open>N\<close> and \<open>STEPS\<close> as parameters.\<close>

definition particles_run :: "int \<Rightarrow> int \<Rightarrow> py_error + int" where
  "particles_run n steps =
     (case particles_steps n steps (map Particle_init [0..n - 1]) 0 of
        Inl e \<Rightarrow> Inl e
      | Inr ps \<Rightarrow> particles_checksum n ps 0 0)"

definition main_particles :: "py_error + string" where
  "main_particles =
     (case particles_run particles_N STEPS of
        Inl e \<Rightarrow> Inl e
      | Inr checksum \<Rightarrow> Inr (py_print (py_str checksum)))"

section \<open>The kernels as processes\<close>

text \<open>
  What a process can reach outside its own variables: the unread standard input, the
  files (path and content), the environment variables (name and value), and what has
  been written to standard output. An input operation would consume \<open>stdin\<close>, a file or environment
  operation would read or change \<open>files\<close> or \<open>environ\<close>; \<open>print\<close> appends to \<open>stdout\<close>.
\<close>

record world =
  stdin :: string
  files :: "(string \<times> string) list"
  environ :: "(string \<times> string) list"
  stdout :: string

definition print_to :: "string \<Rightarrow> world \<Rightarrow> world" where
  "print_to s w = w\<lparr>stdout := stdout w @ py_print s\<rparr>"

text \<open>
  Running each kernel's file in a world \<open>w\<close>: the module defines its functions and
  constants and calls \<open>main()\<close>, whose statements are those of the \<open>main\<close> above with the
  world passed through the only operation on it that the source has, the \<open>print\<close>.
\<close>

definition exec_loopsum :: "world \<Rightarrow> py_error + world" where
  "exec_loopsum w =
     (case py_float (loopsum 10000 10000) of
        Inl e \<Rightarrow> Inl e
      | Inr v \<Rightarrow> Inr (print_to (format_6f v) w))"

definition exec_fib :: "world \<Rightarrow> py_error + world" where
  "exec_fib w =
     (case py_float (fib 41) of
        Inl e \<Rightarrow> Inl e
      | Inr v \<Rightarrow> Inr (print_to (format_6f v) w))"

definition exec_primecount :: "world \<Rightarrow> (py_error + world) option" where
  "exec_primecount w =
     Option.bind (main_primecount_loop [0..9] 0)
       (\<lambda>total. Some (case py_float total of
                         Inl e \<Rightarrow> Inl e
                       | Inr v \<Rightarrow> Inr (print_to (format_6f v) w)))"

definition exec_lcg_hash :: "world \<Rightarrow> world" where
  "exec_lcg_hash w = print_to (py_str (lcg_loop lcg_N 1234567 0 0)) w"

definition exec_particles :: "world \<Rightarrow> py_error + world" where
  "exec_particles w =
     (case particles_run particles_N STEPS of
        Inl e \<Rightarrow> Inl e
      | Inr checksum \<Rightarrow> Inr (print_to (py_str checksum) w))"

section \<open>Harness configuration (chapter06/test/lit.cfg.py)\<close>

subsection \<open>The functions of \<open>os.path\<close> the configuration calls\<close>

text \<open>
  Paths are strings, and \<open>os.path\<close> is the POSIX variant. The definitions follow the
  library's \<open>join\<close>, \<open>normpath\<close>, \<open>abspath\<close> and \<open>dirname\<close> statement by statement; the
  current working directory, which \<open>abspath\<close> reads, is a parameter.
\<close>

definition startswith :: "string \<Rightarrow> string \<Rightarrow> bool" where
  "startswith s p \<longleftrightarrow> take (length p) s = p"

definition endswith :: "string \<Rightarrow> string \<Rightarrow> bool" where
  "endswith s p \<longleftrightarrow> length p \<le> length s \<and> drop (length s - length p) s = p"

text \<open>\<open>s.split(c)\<close> for a one-character separator.\<close>

fun str_split :: "char \<Rightarrow> string \<Rightarrow> string list" where
  "str_split c [] = [[]]"
| "str_split c (a # s) =
     (if a = c then [] # str_split c s
      else (case str_split c s of
              [] \<Rightarrow> [[a]]
            | w # ws \<Rightarrow> (a # w) # ws))"

text \<open>\<open>sep.join(ws)\<close>.\<close>

fun str_join :: "string \<Rightarrow> string list \<Rightarrow> string" where
  "str_join sep [] = []"
| "str_join sep [w] = w"
| "str_join sep (w # ws) = w @ sep @ str_join sep ws"

text \<open>\<open>s.rfind(c)\<close>: the index of the last occurrence of \<open>c\<close>, or \<open>-1\<close>.\<close>

definition str_rfind :: "char \<Rightarrow> string \<Rightarrow> int" where
  "str_rfind c s = int (length s) - int (length (takeWhile (\<lambda>a. a \<noteq> c) (rev s))) - 1"

definition str_rstrip :: "char \<Rightarrow> string \<Rightarrow> string" where
  "str_rstrip c s = rev (dropWhile (\<lambda>a. a = c) (rev s))"

definition path_join_step :: "string \<Rightarrow> string \<Rightarrow> string" where
  "path_join_step path b =
     (if startswith b ''/'' then b
      else if path = [] \<or> endswith path ''/'' then path @ b
      else path @ ''/'' @ b)"

definition path_join :: "string \<Rightarrow> string list \<Rightarrow> string" where
  "path_join a p = fold (\<lambda>b path. path_join_step path b) p a"

definition normpath_step :: "nat \<Rightarrow> string list \<Rightarrow> string \<Rightarrow> string list" where
  "normpath_step initial_slashes new_comps comp' =
     (if comp' = [] \<or> comp' = ''.'' then new_comps
      else if comp' \<noteq> ''..'' \<or> (initial_slashes = 0 \<and> new_comps = [])
              \<or> (new_comps \<noteq> [] \<and> last new_comps = ''..'')
        then new_comps @ [comp']
      else if new_comps \<noteq> [] then butlast new_comps
      else new_comps)"

definition normpath :: "string \<Rightarrow> string" where
  "normpath path =
     (if path = [] then ''.''
      else
        let initial_slashes =
              (if startswith path ''//'' \<and> \<not> startswith path ''///'' then 2
               else if startswith path ''/'' then 1 else 0);
            comps = str_split (CHR ''/'') path;
            new_comps = fold (\<lambda>comp' new_comps. normpath_step initial_slashes new_comps comp') comps [];
            path' = replicate initial_slashes (CHR ''/'') @ str_join ''/'' new_comps
        in if path' = [] then ''.'' else path')"

definition isabs :: "string \<Rightarrow> bool" where
  "isabs s = startswith s ''/''"

definition abspath :: "string \<Rightarrow> string \<Rightarrow> string" where
  "abspath cwd path =
     normpath (if \<not> isabs path then path_join cwd [path] else path)"

definition dirname :: "string \<Rightarrow> string" where
  "dirname p =
     (let i = str_rfind (CHR ''/'') p + 1;
          head = take (nat i) p
      in if head \<noteq> [] \<and> head \<noteq> replicate (length head) (CHR ''/'')
         then str_rstrip (CHR ''/'') head else head)"

subsection \<open>The configuration object and the configuration file\<close>

datatype test_format = ShTest bool

record config =
  name :: string
  test_format :: "test_format option"
  suffixes :: "string list"
  test_source_root :: string
  test_exec_root :: string
  substitutions :: "(string \<times> string) list"

text \<open>
  The harness runs the file on a configuration object \<open>config\<close> that it made, with
  \<open>__file__\<close> bound to the path of the file; \<open>cwd\<close> is the working directory.
\<close>

definition lit_cfg :: "string \<Rightarrow> string \<Rightarrow> config \<Rightarrow> config" where
  "lit_cfg cwd file config =
     (let config = config\<lparr>name := ''pyxc-chapter06''\<rparr>;
          config = config\<lparr>test_format := Some (ShTest True)\<rparr>;
          config = config\<lparr>suffixes := [''.pyxc'']\<rparr>;
          config = config\<lparr>test_source_root := dirname file\<rparr>;
          config = config\<lparr>test_exec_root := test_source_root config\<rparr>;
          chapter_dir = abspath cwd (path_join (test_source_root config) [''..''])
      in config\<lparr>substitutions :=
           substitutions config @ [(''%pyxc'', path_join chapter_dir [''build'', ''pyxc''])]\<rparr>)"

text \<open>An absolute path written from its components.\<close>

definition abs_path :: "string list \<Rightarrow> string" where
  "abs_path cs = ''/'' @ str_join ''/'' cs"

text \<open>
  A component that \<open>normpath\<close> keeps: not empty, not \<open>.\<close> or \<open>..\<close>, and without a
  separator.
\<close>

definition plain_comp :: "string \<Rightarrow> bool" where
  "plain_comp c \<longleftrightarrow> c \<noteq> [] \<and> c \<noteq> ''.'' \<and> c \<noteq> ''..'' \<and> CHR ''/'' \<notin> set c"

section \<open>Facts about the runtime conventions\<close>

lemma bit_length_le: "n < 2 ^ k \<Longrightarrow> bit_length n \<le> k"
proof (induction k arbitrary: n)
  case 0
  then show ?case by (simp add: bit_length.simps)
next
  case (Suc k)
  show ?case
  proof (cases "n = 0")
    case True
    then show ?thesis by (simp add: bit_length.simps)
  next
    case False
    from Suc.prems have "n div 2 < 2 ^ k" by simp
    then have "bit_length (n div 2) \<le> k" by (rule Suc.IH)
    with False show ?thesis by (subst bit_length.simps) simp
  qed
qed

lemma py_float_exact: "\<bar>n\<bar> < 2 ^ 53 \<Longrightarrow> py_float n = Inr n"
proof -
  assume "\<bar>n\<bar> < 2 ^ 53"
  then have "nat \<bar>n\<bar> < 2 ^ 53" by (simp add: nat_less_iff)
  then have "bit_length (nat \<bar>n\<bar>) \<le> 53" by (rule bit_length_le)
  then show ?thesis by (simp add: py_float_def Let_def)
qed

lemma digit_char_in: "d < 10 \<Longrightarrow> digit_char d \<in> set ''0123456789''"
  unfolding digit_char_def by (rule nth_mem) simp

lemma digits_of_chars: "set (digits_of n) \<subseteq> set ''0123456789''"
proof (induction n rule: digits_of.induct)
  case (1 n)
  show ?case
  proof (cases "n < 10")
    case True
    then show ?thesis using digit_char_in [of n] by (subst digits_of.simps) simp
  next
    case False
    have "n mod 10 < 10" by simp
    then have "digit_char (n mod 10) \<in> set ''0123456789''" by (rule digit_char_in)
    with False "1.IH" show ?thesis by (subst digits_of.simps) simp
  qed
qed

lemma py_str_no_newline: "newline \<notin> set (py_str n)"
  using digits_of_chars [of "nat n"] digits_of_chars [of "nat (- n)"]
  by (auto simp: py_str_def newline_def)

lemma format_6f_no_newline: "newline \<notin> set (format_6f v)"
  using py_str_no_newline [of v] by (simp add: format_6f_def) (simp add: newline_def)

lemma one_line_print: "newline \<notin> set s \<Longrightarrow> one_line (py_print s)"
  by (simp add: one_line_def py_print_def)

section \<open>Facts about loop-sum\<close>

lemma tri_step: "(k + 1) * (k + 1 + 1) div 2 = k * (k + 1) div 2 + (k + 1)" for k :: int
proof -
  have "(k + 1) * (k + 1 + 1) = 2 * (k + 1) + k * (k + 1)" by (simp add: algebra_simps)
  then show ?thesis by simp
qed

lemma upto_snoc: "0 \<le> k \<Longrightarrow> [1..k + 1] = [1..k] @ [k + 1]" for k :: int
  by (simp add: upto_rec2)

lemma inner_loop_sum:
  "0 \<le> m \<Longrightarrow> fold (\<lambda>j total. total + i * j) [1..m] t = t + i * (m * (m + 1) div 2)"
proof (induction m rule: int_ge_induct)
  case base
  then show ?case by simp
next
  case (step k)
  have "fold (\<lambda>j total. total + i * j) [1..k + 1] t
      = fold (\<lambda>j total. total + i * j) [1..k] t + i * (k + 1)"
    using step.hyps by (simp only: upto_snoc fold_append o_apply fold_simps)
  also have "\<dots> = t + i * (k * (k + 1) div 2) + i * (k + 1)"
    by (simp only: step.IH)
  also have "\<dots> = t + i * ((k + 1) * (k + 1 + 1) div 2)"
    by (subst tri_step) (simp add: distrib_left)
  finally show ?case .
qed

lemma outer_loop_sum:
  "0 \<le> n \<Longrightarrow> 0 \<le> m \<Longrightarrow>
   fold (\<lambda>i total. fold (\<lambda>j total. total + i * j) [1..m] total) [1..n] t
     = t + (n * (n + 1) div 2) * (m * (m + 1) div 2)"
proof (induction n rule: int_ge_induct)
  case base
  then show ?case by simp
next
  case (step k)
  let ?f = "\<lambda>i total. fold (\<lambda>j total. total + i * j) [1..m] total"
  let ?M = "m * (m + 1) div 2"
  have "fold ?f [1..k + 1] t = fold ?f [1..k] t + (k + 1) * ?M"
    using step.hyps step.prems by (simp only: upto_snoc fold_append o_apply fold_simps inner_loop_sum)
  also have "\<dots> = t + (k * (k + 1) div 2) * ?M + (k + 1) * ?M"
    using step.prems by (simp only: step.IH)
  also have "\<dots> = t + ((k + 1) * (k + 1 + 1) div 2) * ?M"
    by (subst tri_step) (simp add: distrib_right)
  finally show ?case .
qed

lemma loopsum_10000: "loopsum 10000 10000 = 2500500025000000"
  by (simp add: loopsum_def outer_loop_sum)

lemma main_loopsum_output: "main_loopsum = Inr (py_print ''2500500025000000.000000'')"
proof -
  have "py_float 2500500025000000 = Inr 2500500025000000"
    by (rule py_float_exact) simp
  moreover have "format_6f 2500500025000000 = ''2500500025000000.000000''"
    by (simp add: format_6f_def py_str_def digits_of.simps digit_char_def)
  ultimately show ?thesis
    by (simp add: main_loopsum_def loopsum_10000)
qed

text \<open>
  Claim C9. For all integers \<open>n \<ge> 0\<close> and \<open>m \<ge> 0\<close>, \<open>loopsum(n, m)\<close> is the product of
  the two triangular numbers \<open>n (n + 1) / 2\<close> and \<open>m (m + 1) / 2\<close>; in particular
  \<open>loopsum(10000, 10000) = 2500500025000000\<close>.
\<close>

theorem loopsum_closed_form:
  "(0 \<le> n \<longrightarrow> 0 \<le> m \<longrightarrow> loopsum n m = (n * (n + 1) div 2) * (m * (m + 1) div 2))
   \<and> loopsum 10000 10000 = 2500500025000000"
  by (simp add: loopsum_def outer_loop_sum)

theorem loopsum_closed_form_witness:
  "(0::int) \<le> 3 \<and> (0::int) \<le> 4 \<and> loopsum 3 4 = 60"
  using loopsum_closed_form [of 3 4] by simp

text \<open>
  Claim C1, as the code has it. The main of the loop-sum kernel does not print
  \<open>100000000.000000\<close>: the loops accumulate the products \<open>i * j\<close>, not the number of
  iterations, and the line printed is \<open>2500500025000000.000000\<close>.
\<close>

theorem main_loopsum_prints:
  "main_loopsum = Inr (py_print ''2500500025000000.000000'')"
  by (rule main_loopsum_output)

theorem main_loopsum_not_100000000:
  "main_loopsum \<noteq> Inr (py_print ''100000000.000000'')"
  by (simp add: main_loopsum_output py_print_def)

section \<open>Facts about fib\<close>

lemma fib_small: "n < 3 \<Longrightarrow> fib n = 1"
  by (simp add: fib.simps)

lemma fib_rec: "3 \<le> n \<Longrightarrow> fib n = fib (n - 1) + fib (n - 2)"
  by (subst fib.simps) simp

lemma fib_is_fib_seq: "1 \<le> n \<Longrightarrow> fib (int n) = fib_seq n"
proof (induction n rule: fib_seq.induct)
  case 1
  then show ?case by (simp add: fib_small)
next
  case 2
  then show ?case by (simp add: fib_small)
next
  case (3 n)
  have "fib (int (Suc (Suc (Suc n)))) = fib (int (Suc (Suc n))) + fib (int (Suc n))"
    by (subst fib_rec) (simp_all add: algebra_simps)
  with 3 show ?case by simp
next
  case 4
  then show ?case by simp
qed

lemma fib_iter_seq: "1 \<le> n \<Longrightarrow> fib_iter k (fib_seq n) (fib_seq (Suc n)) = fib_seq (n + k)"
proof (induction k arbitrary: n)
  case 0
  then show ?case by simp
next
  case (Suc k)
  from Suc.prems obtain m where n: "n = Suc m" by (cases n) auto
  have "fib_iter (Suc k) (fib_seq n) (fib_seq (Suc n)) = fib_iter k (fib_seq (Suc n)) (fib_seq (Suc (Suc n)))"
    by (simp add: n add.commute)
  also have "\<dots> = fib_seq (Suc n + k)"
    by (rule Suc.IH) simp
  finally show ?case by simp
qed

lemma fib_seq_41: "fib_seq 41 = 165580141"
proof -
  have "fib_seq (1 + 40) = fib_iter 40 (fib_seq 1) (fib_seq (Suc 1))"
    by (rule fib_iter_seq [symmetric]) simp
  also have "\<dots> = fib_iter 40 1 1"
    by (simp add: numeral_2_eq_2)
  also have "\<dots> = 165580141"
    by code_simp
  finally show ?thesis by simp
qed

lemma fib_41: "fib 41 = 165580141"
  using fib_is_fib_seq [of 41] fib_seq_41 by simp

lemma format_165580141: "format_6f 165580141 = ''165580141.000000''"
  by (simp add: format_6f_def py_str_def digits_of.simps digit_char_def)

lemma main_fib_output: "main_fib = Inr (py_print ''165580141.000000'')"
proof -
  have "py_float 165580141 = Inr 165580141"
    by (rule py_float_exact) simp
  then show ?thesis
    by (simp add: main_fib_def fib_41 format_165580141)
qed


text \<open>
  Claim C3. For every \<open>n \<ge> 1\<close>, \<open>fib(n)\<close> is the \<open>n\<close>-th term of the sequence with
  first and second term 1 in which each later term is the sum of the two before it, and
  the main of the fib kernel prints that sequence's 41st term with six fractional
  digits, which is the line \<open>165580141.000000\<close>.
\<close>

theorem fib_main_prints_term_41:
  "(1 \<le> n \<longrightarrow> fib (int n) = fib_seq n)
   \<and> main_fib = Inr (py_print (format_6f (fib_seq 41)))
   \<and> format_6f (fib_seq 41) = ''165580141.000000''"
  by (simp add: fib_is_fib_seq main_fib_output fib_seq_41 format_165580141)

theorem fib_main_prints_term_41_witness:
  "(1::nat) \<le> 7 \<and> fib (int 7) = fib_seq 7 \<and> fib_seq 7 = 13"
proof -
  have "fib_seq 7 = 13" by (simp add: eval_nat_numeral)
  then show ?thesis using fib_main_prints_term_41 [of 7] by simp
qed

section \<open>Facts about prime-count\<close>

lemma divisible_returns:
  "1 \<le> d \<Longrightarrow> divisible n d = Some (0 < n \<and> d dvd n)"
proof (induction "nat n" arbitrary: n rule: less_induct)
  case less
  show ?case
  proof (cases "n < d")
    case True
    then have "\<not> (0 < n \<and> d dvd n)"
      using zdvd_not_zless [of n d] by auto
    with True show ?thesis by (subst divisible.simps) simp
  next
    case False
    show ?thesis
    proof (cases "n < d + 1")
      case True
      with False have "n = d" by simp
      with less.prems show ?thesis by (subst divisible.simps) simp
    next
      case False
      with less.prems have "nat (n - d) < nat n" by simp
      then have "divisible (n - d) d = Some (0 < n - d \<and> d dvd n - d)"
        using less.prems by (rule less.hyps)
      moreover have "d dvd n - d \<longleftrightarrow> d dvd n"
        using dvd_diff [of d n d] dvd_add [of d "n - d" d] by auto
      ultimately show ?thesis
        using False less.prems by (subst divisible.simps) simp
    qed
  qed
qed

lemma is_prime_from_returns:
  "1 \<le> d \<Longrightarrow> is_prime_from n d = Some (\<forall>k. d \<le> k \<and> k * k \<le> n \<longrightarrow> \<not> k dvd n)"
proof (induction "nat (n + 1 - d)" arbitrary: d rule: less_induct)
  case less
  show ?case
  proof (cases "d * d > n")
    case True
    have "\<forall>k. d \<le> k \<and> k * k \<le> n \<longrightarrow> \<not> k dvd n"
    proof (intro allI impI)
      fix k assume k: "d \<le> k \<and> k * k \<le> n"
      with less.prems have "d * d \<le> k * k" by (intro mult_mono) auto
      with k True show "\<not> k dvd n" by simp
    qed
    with True show ?thesis by (subst is_prime_from.simps) simp
  next
    case False
    then have dd: "d * d \<le> n" by simp
    have "d \<le> d * d" using less.prems by (simp add: mult_le_cancel_left1)
    with dd have dn: "d \<le> n" by simp
    with less.prems have npos: "0 < n" by simp
    have div: "divisible n d = Some (d dvd n)"
      using divisible_returns [OF less.prems, of n] npos by simp
    show ?thesis
    proof (cases "d dvd n")
      case True
      then have "\<not> (\<forall>k. d \<le> k \<and> k * k \<le> n \<longrightarrow> \<not> k dvd n)"
        using dd by blast
      with True False div show ?thesis by (subst is_prime_from.simps) simp
    next
      case ndvd: False
      have "nat (n + 1 - (d + 1)) < nat (n + 1 - d)" using dn by simp
      moreover have "1 \<le> d + 1" using less.prems by simp
      ultimately have IH: "is_prime_from n (d + 1) = Some (\<forall>k. d + 1 \<le> k \<and> k * k \<le> n \<longrightarrow> \<not> k dvd n)"
        by (rule less.hyps)
      have "(\<forall>k. d + 1 \<le> k \<and> k * k \<le> n \<longrightarrow> \<not> k dvd n) \<longleftrightarrow> (\<forall>k. d \<le> k \<and> k * k \<le> n \<longrightarrow> \<not> k dvd n)"
      proof
        assume a: "\<forall>k. d + 1 \<le> k \<and> k * k \<le> n \<longrightarrow> \<not> k dvd n"
        show "\<forall>k. d \<le> k \<and> k * k \<le> n \<longrightarrow> \<not> k dvd n"
        proof (intro allI impI)
          fix k assume k: "d \<le> k \<and> k * k \<le> n"
          show "\<not> k dvd n"
          proof (cases "k = d")
            case True
            with ndvd show ?thesis by simp
          next
            case False
            with k have "d + 1 \<le> k" by simp
            with a k show ?thesis by blast
          qed
        qed
      next
        assume a: "\<forall>k. d \<le> k \<and> k * k \<le> n \<longrightarrow> \<not> k dvd n"
        show "\<forall>k. d + 1 \<le> k \<and> k * k \<le> n \<longrightarrow> \<not> k dvd n"
        proof (intro allI impI)
          fix k assume "d + 1 \<le> k \<and> k * k \<le> n"
          then have "d \<le> k \<and> k * k \<le> n" by simp
          with a show "\<not> k dvd n" by blast
        qed
      qed
      with IH ndvd False div show ?thesis by (subst is_prime_from.simps) simp
    qed
  qed
qed

lemma small_divisor:
  assumes "2 \<le> d" "d < n" "d dvd n"
  shows "\<exists>k::int. 2 \<le> k \<and> k * k \<le> n \<and> k dvd n"
proof -
  from assms obtain e where e: "n = d * e" by (auto simp: dvd_def)
  with assms have epos: "0 < e" by (simp add: zero_less_mult_iff)
  have "e \<noteq> 1" using e assms by auto
  with epos have e2: "2 \<le> e" by simp
  show ?thesis
  proof (cases "d \<le> e")
    case True
    then have "d * d \<le> d * e" using assms by (intro mult_left_mono) auto
    with e assms show ?thesis by auto
  next
    case False
    then have "e * e \<le> d * e" using epos by (intro mult_right_mono) auto
    moreover have "e dvd n" using e by simp
    ultimately show ?thesis using e e2 by auto
  qed
qed

lemma spec_prime_sqrt:
  "2 \<le> n \<Longrightarrow> spec_prime n \<longleftrightarrow> (\<forall>k. 2 \<le> k \<and> k * k \<le> n \<longrightarrow> \<not> k dvd n)"
proof
  assume n: "2 \<le> n" and sp: "spec_prime n"
  show "\<forall>k. 2 \<le> k \<and> k * k \<le> n \<longrightarrow> \<not> k dvd n"
  proof (intro allI impI)
    fix k assume k: "2 \<le> k \<and> k * k \<le> n"
    then have "k * 2 \<le> k * k" by (intro mult_left_mono) auto
    moreover from k have "k < k * 2" by simp
    ultimately have "k < n" using k by linarith
    with k sp show "\<not> k dvd n" by (simp add: spec_prime_def)
  qed
next
  assume n: "2 \<le> n" and a: "\<forall>k. 2 \<le> k \<and> k * k \<le> n \<longrightarrow> \<not> k dvd n"
  have "\<not> d dvd n" if "d \<in> {2..<n}" for d
  proof
    assume "d dvd n"
    with that have "\<exists>k::int. 2 \<le> k \<and> k * k \<le> n \<and> k dvd n"
      by (intro small_divisor [of d n]) auto
    with a show False by blast
  qed
  with n show "spec_prime n" by (simp add: spec_prime_def)
qed

lemma is_prime_returns: "is_prime n = Some (spec_prime n)"
proof (cases "n < 2")
  case True
  then show ?thesis by (simp add: is_prime_def spec_prime_def)
next
  case False
  then have "2 \<le> n" by simp
  then show ?thesis
    using is_prime_from_returns [of 2 n] by (simp add: is_prime_def spec_prime_sqrt)
qed

lemma count_primes_loop_returns:
  "count_primes_loop ns c = Some (c + int (length (filter spec_prime ns)))"
  by (induction ns arbitrary: c) (simp_all add: is_prime_returns)

lemma count_primes_returns:
  "count_primes limit = Some (int (card {n \<in> {2..limit}. spec_prime n}))"
proof -
  have "length (filter spec_prime [2..limit]) = card {n \<in> {2..limit}. spec_prime n}"
    by (simp add: distinct_length_filter Int_def conj_commute)
  then show ?thesis by (simp add: count_primes_def count_primes_loop_returns)
qed

lemma main_primecount_loop_returns:
  "count_primes 1900 = Some c \<Longrightarrow>
   main_primecount_loop rest t = Some (t + int (length rest) * c)"
  by (induction rest arbitrary: t) (simp_all add: algebra_simps)

lemma primes_upto_1900_bound: "card {n \<in> {2..1900::int}. spec_prime n} \<le> 1899"
proof -
  have "card {n \<in> {2..1900::int}. spec_prime n} \<le> card {2..1900::int}"
    by (intro card_mono) auto
  then show ?thesis by simp
qed

lemma main_primecount_returns:
  "main_primecount =
     Some (Inr (py_print (format_6f (10 * int (card {n \<in> {2..1900}. spec_prime n})))))"
proof -
  let ?c = "int (card {n \<in> {2..1900::int}. spec_prime n})"
  have "main_primecount_loop [0..9] 0 = Some (0 + int (length [0..9::int]) * ?c)"
    by (rule main_primecount_loop_returns) (rule count_primes_returns)
  then have loop: "main_primecount_loop [0..9] 0 = Some (10 * ?c)" by simp
  have "\<bar>10 * ?c\<bar> < 2 ^ 53" using primes_upto_1900_bound by simp
  then have "py_float (10 * ?c) = Inr (10 * ?c)" by (rule py_float_exact)
  with loop show ?thesis by (simp add: main_primecount_def)
qed


text \<open>
  The bound on the divisor is needed: with a divisor below 1 and \<open>n\<close> above it, the
  recursion of \<open>divisible\<close> never reaches a base case.
\<close>

lemma divisible_Some_only_if:
  assumes "divisible n d = Some b"
  shows "1 \<le> d \<or> n \<le> d"
proof (rule divisible.raw_induct [where P = "\<lambda>n d b. 1 \<le> d \<or> n \<le> d", OF _ assms])
  fix f :: "int \<Rightarrow> int \<Rightarrow> bool option" and n d :: int and b :: bool
  assume IH: "\<And>n d b. f n d = Some b \<Longrightarrow> 1 \<le> d \<or> n \<le> d"
    and body: "(if n < d then Some False else if n < d + 1 then Some True else f (n - d) d) = Some b"
  show "1 \<le> d \<or> n \<le> d"
  proof (cases "n < d + 1")
    case True
    then show ?thesis by simp
  next
    case False
    with body have "f (n - d) d = Some b" by (simp split: if_splits)
    then have "1 \<le> d \<or> n - d \<le> d" by (rule IH)
    with False show ?thesis by auto
  qed
qed

lemma divisible_diverges: "d \<le> 0 \<Longrightarrow> d < n \<Longrightarrow> divisible n d = None"
  using divisible_Some_only_if [of n d] by (cases "divisible n d") auto

text \<open>
  For evaluation: with a divisor of at least 1 the result of \<open>divisible\<close> is a remainder
  test. The count up to 1900 is evaluated in blocks of a hundred numbers.
\<close>

lemma divisible_code [code]:
  "divisible n d =
     (if 1 \<le> d then Some (0 < n \<and> n mod d = 0)
      else if n < d then Some False
      else if n < d + 1 then Some True
      else divisible (n - d) d)"
proof (cases "1 \<le> d")
  case True
  then show ?thesis by (simp add: divisible_returns dvd_eq_mod_eq_0)
next
  case False
  then show ?thesis by (subst divisible.simps) simp
qed

declare is_prime_from.simps [code]

lemma count_primes_loop_append:
  "count_primes_loop (xs @ ys) c = Option.bind (count_primes_loop xs c) (count_primes_loop ys)"
  by (induction xs arbitrary: c) (simp_all add: is_prime_returns)

lemma upto_blocks:
  "[2..1900::int] = [2..100] @ [101..200] @ [201..300] @ [301..400] @ [401..500]
     @ [501..600] @ [601..700] @ [701..800] @ [801..900] @ [901..1000]
     @ [1001..1100] @ [1101..1200] @ [1201..1300] @ [1301..1400] @ [1401..1500]
     @ [1501..1600] @ [1601..1700] @ [1701..1800] @ [1801..1900]"
  using upto_split2 [of 2 100 1900] upto_split2 [of 101 200 1900] upto_split2 [of 201 300 1900]
    upto_split2 [of 301 400 1900] upto_split2 [of 401 500 1900] upto_split2 [of 501 600 1900]
    upto_split2 [of 601 700 1900] upto_split2 [of 701 800 1900] upto_split2 [of 801 900 1900]
    upto_split2 [of 901 1000 1900] upto_split2 [of 1001 1100 1900] upto_split2 [of 1101 1200 1900]
    upto_split2 [of 1201 1300 1900] upto_split2 [of 1301 1400 1900] upto_split2 [of 1401 1500 1900]
    upto_split2 [of 1501 1600 1900] upto_split2 [of 1601 1700 1900] upto_split2 [of 1701 1800 1900]
  by simp

lemma count_primes_1900: "count_primes 1900 = Some 290"
proof -
  have "count_primes_loop [2..100] 0 = Some 25" by code_simp
  moreover have "count_primes_loop [101..200] 25 = Some 46" by code_simp
  moreover have "count_primes_loop [201..300] 46 = Some 62" by code_simp
  moreover have "count_primes_loop [301..400] 62 = Some 78" by code_simp
  moreover have "count_primes_loop [401..500] 78 = Some 95" by code_simp
  moreover have "count_primes_loop [501..600] 95 = Some 109" by code_simp
  moreover have "count_primes_loop [601..700] 109 = Some 125" by code_simp
  moreover have "count_primes_loop [701..800] 125 = Some 139" by code_simp
  moreover have "count_primes_loop [801..900] 139 = Some 154" by code_simp
  moreover have "count_primes_loop [901..1000] 154 = Some 168" by code_simp
  moreover have "count_primes_loop [1001..1100] 168 = Some 184" by code_simp
  moreover have "count_primes_loop [1101..1200] 184 = Some 196" by code_simp
  moreover have "count_primes_loop [1201..1300] 196 = Some 211" by code_simp
  moreover have "count_primes_loop [1301..1400] 211 = Some 222" by code_simp
  moreover have "count_primes_loop [1401..1500] 222 = Some 239" by code_simp
  moreover have "count_primes_loop [1501..1600] 239 = Some 251" by code_simp
  moreover have "count_primes_loop [1601..1700] 251 = Some 266" by code_simp
  moreover have "count_primes_loop [1701..1800] 266 = Some 278" by code_simp
  moreover have "count_primes_loop [1801..1900] 278 = Some 290" by code_simp
  ultimately show ?thesis
    by (simp only: count_primes_def upto_blocks count_primes_loop_append Option.bind.simps)
qed

lemma primes_upto_1900: "card {p \<in> {2..1900::int}. spec_prime p} = 290"
  using count_primes_returns [of 1900] count_primes_1900 by simp

lemma main_primecount_output: "main_primecount = Some (Inr (py_print ''2900.000000''))"
proof -
  have "format_6f 2900 = ''2900.000000''"
    by (simp add: format_6f_def py_str_def digits_of.simps digit_char_def)
  moreover have "main_primecount = Some (Inr (py_print (format_6f (10 * int 290))))"
    using main_primecount_returns by (simp only: primes_upto_1900)
  ultimately show ?thesis by simp
qed

text \<open>
  Claim C10. For every divisor \<open>d \<ge> 1\<close> and every integer \<open>n\<close> the call
  \<open>divisible(n, d)\<close> returns; \<open>is_prime_from(n, d)\<close> returns for every divisor
  \<open>d \<ge> 2\<close>, and \<open>is_prime\<close>, \<open>count_primes\<close> and the kernel's main return on every
  input.
\<close>

theorem primecount_terminates:
  "(1 \<le> d \<longrightarrow> (\<exists>b. divisible n d = Some b))
   \<and> (2 \<le> d \<longrightarrow> (\<exists>b. is_prime_from n d = Some b))
   \<and> (\<exists>b. is_prime n = Some b)
   \<and> (\<exists>c. count_primes limit = Some c)
   \<and> (\<exists>out. main_primecount = Some out)"
  by (simp add: divisible_returns is_prime_from_returns is_prime_returns
      count_primes_returns main_primecount_returns)

theorem primecount_terminates_witness:
  "(1::int) \<le> 3 \<and> (\<exists>b. divisible 7 3 = Some b)
   \<and> (2::int) \<le> 3 \<and> (\<exists>b. is_prime_from 7 3 = Some b)"
  using primecount_terminates [of 3 7] by simp

text \<open>
  Claim C2. \<open>is_prime(n)\<close> returns True exactly when \<open>n\<close> is prime,
  \<open>count_primes(1900)\<close> is the number of primes in \<open>[2, 1900]\<close>, which is 290, the
  total that main accumulates is ten times that number, and main prints it with six
  fractional digits: the line \<open>2900.000000\<close>.
\<close>

theorem primecount_prints_ten_times_count:
  "is_prime n = Some (spec_prime n)
   \<and> count_primes 1900 = Some (int (card {p \<in> {2..1900}. spec_prime p}))
   \<and> card {p \<in> {2..1900::int}. spec_prime p} = 290
   \<and> main_primecount_loop [0..9] 0 = Some (10 * int (card {p \<in> {2..1900}. spec_prime p}))
   \<and> main_primecount =
       Some (Inr (py_print (format_6f (10 * int (card {p \<in> {2..1900}. spec_prime p})))))
   \<and> main_primecount = Some (Inr (py_print ''2900.000000''))"
proof -
  have "main_primecount_loop [0..9] 0
      = Some (0 + int (length [0..9::int]) * int (card {p \<in> {2..1900}. spec_prime p}))"
    by (rule main_primecount_loop_returns) (rule count_primes_returns)
  then have "main_primecount_loop [0..9] 0
      = Some (10 * int (card {p \<in> {2..1900}. spec_prime p}))"
    by simp
  then show ?thesis
    using is_prime_returns [of n] count_primes_returns [of 1900] primes_upto_1900
      main_primecount_returns main_primecount_output
    by (simp only: simp_thms)
qed

theorem primecount_prints_ten_times_count_witness:
  "is_prime 7 = Some True \<and> is_prime 9 = Some False"
proof -
  have "spec_prime 7" "\<not> spec_prime 9" by code_simp+
  then show ?thesis
    using primecount_prints_ten_times_count [of 7] primecount_prints_ten_times_count [of 9]
    by simp
qed

section \<open>Facts about lcg-hash and particles\<close>

lemma lcg_loop_range:
  "0 \<le> acc \<Longrightarrow> acc < lcg_MODV \<Longrightarrow>
   0 \<le> lcg_loop n x0 acc i \<and> lcg_loop n x0 acc i < lcg_MODV"
proof (induction n x0 acc i rule: lcg_loop.induct)
  case (1 n x0 acc i)
  show ?case
  proof (cases "i < n")
    case True
    let ?x = "(x0 * 48271) mod lcg_MODV"
    let ?acc = "(acc + ?x + i) mod lcg_MODV"
    have "0 \<le> ?acc" "?acc < lcg_MODV" by (simp_all add: lcg_MODV_def)
    then have "0 \<le> lcg_loop n ?x ?acc (i + 1) \<and> lcg_loop n ?x ?acc (i + 1) < lcg_MODV"
      using True by (intro "1.IH") simp_all
    then show ?thesis using True by (subst (1 2) lcg_loop.simps) (simp add: Let_def)
  next
    case False
    with "1.prems" show ?thesis by (subst (1 2) lcg_loop.simps) simp
  qed
qed

lemma py_index_in_range:
  "0 \<le> i \<Longrightarrow> i < int (length xs) \<Longrightarrow> py_index xs i = Inr (nat i)"
  by (simp add: py_index_def Let_def)

lemma list_all_update:
  "list_all P xs \<Longrightarrow> P v \<Longrightarrow> list_all P (xs[k := v])"
  using set_update_subset_insert [of xs k v] by (auto simp: list_all_iff)

lemma particles_inner_returns:
  assumes "0 \<le> i" "n \<le> int (length ps)" "list_all (\<lambda>p. length (bins p) = 4) ps"
  shows "\<exists>ps'. particles_inner n step ps i = Inr ps' \<and> length ps' = length ps
           \<and> list_all (\<lambda>p. length (bins p) = 4) ps'"
  using assms
proof (induction "nat (n - i)" arbitrary: ps i rule: less_induct)
  case less
  show ?case
  proof (cases "i < n")
    case False
    with less.prems show ?thesis by (subst particles_inner.simps) simp
  next
    case True
    with less.prems have i_len: "i < int (length ps)" by simp
    with less.prems have idx: "py_index ps i = Inr (nat i)" by (simp add: py_index_in_range)
    from i_len less.prems have "nat i < length ps" by simp
    with less.prems have len4: "length (bins (ps ! nat i)) = 4" by (simp add: list_all_length)
    have "0 \<le> step mod 4" "step mod 4 < 4" by simp_all
    with len4 have slot: "py_index (bins (ps ! nat i)) (step mod 4) = Inr (nat (step mod 4))"
      by (simp add: py_index_in_range)
    define q where "q = (ps ! nat i)
      \<lparr>pos := (pos (ps ! nat i))\<lparr>x := x (pos (ps ! nat i)) + x (vel (ps ! nat i)),
                                  y := y (pos (ps ! nat i)) + y (vel (ps ! nat i))\<rparr>,
       bins := (bins (ps ! nat i))[nat (step mod 4) :=
                 bins (ps ! nat i) ! nat (step mod 4) + i + step]\<rparr>"
    have q4: "length (bins q) = 4" using len4 by (simp add: q_def)
    have unfold: "particles_inner n step ps i = particles_inner n step (ps[nat i := q]) (i + 1)"
      using True idx slot by (subst particles_inner.simps) (simp add: Let_def q_def)
    have "\<exists>ps'. particles_inner n step (ps[nat i := q]) (i + 1) = Inr ps'
            \<and> length ps' = length (ps[nat i := q])
            \<and> list_all (\<lambda>p. length (bins p) = 4) ps'"
    proof (rule less.hyps)
      show "nat (n - (i + 1)) < nat (n - i)" using True by simp
      show "0 \<le> i + 1" using less.prems by simp
      show "n \<le> int (length (ps[nat i := q]))" using less.prems by simp
      show "list_all (\<lambda>p. length (bins p) = 4) (ps[nat i := q])"
        using less.prems q4 by (simp add: list_all_update)
    qed
    with unfold show ?thesis by simp
  qed
qed

lemma particles_steps_returns:
  assumes "n \<le> int (length ps)" "list_all (\<lambda>p. length (bins p) = 4) ps"
  shows "\<exists>ps'. particles_steps n steps ps step = Inr ps' \<and> length ps' = length ps
           \<and> list_all (\<lambda>p. length (bins p) = 4) ps'"
  using assms
proof (induction "nat (steps - step)" arbitrary: ps step rule: less_induct)
  case less
  show ?case
  proof (cases "step < steps")
    case False
    with less.prems show ?thesis by (subst particles_steps.simps) simp
  next
    case True
    from less.prems obtain ps1 where inner: "particles_inner n step ps 0 = Inr ps1"
      and len1: "length ps1 = length ps"
      and all1: "list_all (\<lambda>p. length (bins p) = 4) ps1"
      using particles_inner_returns [of 0 n ps step] by auto
    have "\<exists>ps'. particles_steps n steps ps1 (step + 1) = Inr ps' \<and> length ps' = length ps1
            \<and> list_all (\<lambda>p. length (bins p) = 4) ps'"
    proof (rule less.hyps)
      show "nat (steps - (step + 1)) < nat (steps - step)" using True by simp
      show "n \<le> int (length ps1)" using less.prems len1 by simp
      show "list_all (\<lambda>p. length (bins p) = 4) ps1" by (rule all1)
    qed
    with True inner len1 show ?thesis by (subst particles_steps.simps) simp
  qed
qed

lemma particles_checksum_returns:
  assumes "0 \<le> i" "n \<le> int (length ps)" "list_all (\<lambda>p. length (bins p) = 4) ps"
    and "0 \<le> c" "c < particles_MODV"
  shows "\<exists>r. particles_checksum n ps c i = Inr r \<and> 0 \<le> r \<and> r < particles_MODV"
  using assms
proof (induction "nat (n - i)" arbitrary: c i rule: less_induct)
  case less
  show ?case
  proof (cases "i < n")
    case False
    with less.prems show ?thesis by (subst particles_checksum.simps) simp
  next
    case True
    with less.prems have i_len: "i < int (length ps)" by simp
    with less.prems have idx: "py_index ps i = Inr (nat i)" by (simp add: py_index_in_range)
    from i_len less.prems have "nat i < length ps" by simp
    with less.prems have len4: "length (bins (ps ! nat i)) = 4" by (simp add: list_all_length)
    then have b: "py_index (bins (ps ! nat i)) 0 = Inr 0"
      "py_index (bins (ps ! nat i)) 1 = Inr 1"
      "py_index (bins (ps ! nat i)) 2 = Inr 2"
      "py_index (bins (ps ! nat i)) 3 = Inr 3"
      by (simp_all add: py_index_def Let_def)
    define c' where "c' = (c + x (pos (ps ! nat i)) + y (pos (ps ! nat i))
        + bins (ps ! nat i) ! 0 + bins (ps ! nat i) ! 1
        + bins (ps ! nat i) ! 2 + bins (ps ! nat i) ! 3) mod particles_MODV"
    have unfold: "particles_checksum n ps c i = particles_checksum n ps c' (i + 1)"
      using True idx b by (subst particles_checksum.simps) (simp add: Let_def c'_def)
    have "\<exists>r. particles_checksum n ps c' (i + 1) = Inr r \<and> 0 \<le> r \<and> r < particles_MODV"
    proof (rule less.hyps)
      show "nat (n - (i + 1)) < nat (n - i)" using True by simp
      show "0 \<le> i + 1" using less.prems by simp
      show "n \<le> int (length ps)" by (rule less.prems)
      show "list_all (\<lambda>p. length (bins p) = 4) ps" by (rule less.prems)
      show "0 \<le> c'" "c' < particles_MODV" by (simp_all add: c'_def particles_MODV_def)
    qed
    with unfold show ?thesis by simp
  qed
qed

lemma particles_run_returns:
  "\<exists>c. particles_run n steps = Inr c \<and> 0 \<le> c \<and> c < particles_MODV"
proof -
  let ?ps = "map Particle_init [0..n - 1]"
  have len: "n \<le> int (length ?ps)" by simp
  have all: "list_all (\<lambda>p. length (bins p) = 4) ?ps"
    by (simp add: list_all_iff Particle_init_def)
  from particles_steps_returns [OF len all, of steps 0]
  obtain ps' where steps: "particles_steps n steps ?ps 0 = Inr ps'"
    and len': "length ps' = length ?ps"
    and all': "list_all (\<lambda>p. length (bins p) = 4) ps'"
    by auto
  from len len' have "n \<le> int (length ps')" by simp
  then have "\<exists>r. particles_checksum n ps' 0 0 = Inr r \<and> 0 \<le> r \<and> r < particles_MODV"
    using all' by (intro particles_checksum_returns) (simp_all add: particles_MODV_def)
  with steps show ?thesis by (simp add: particles_run_def)
qed

text \<open>
  Claim C4. The integer that the lcg-hash kernel prints lies in \<open>[0, 2147483647)\<close> and
  the integer that the particles kernel prints lies in \<open>[0, 1000000007)\<close>; the same
  holds for every loop bound, since each accumulator is reduced at every update.
\<close>

theorem checksums_within_moduli:
  "main_lcg_hash = py_print (py_str lcg_acc) \<and> 0 \<le> lcg_acc \<and> lcg_acc < 2147483647
   \<and> (\<exists>c. particles_run particles_N STEPS = Inr c
          \<and> main_particles = Inr (py_print (py_str c)) \<and> 0 \<le> c \<and> c < 1000000007)
   \<and> 0 \<le> lcg_loop n x0 0 0 \<and> lcg_loop n x0 0 0 < 2147483647
   \<and> (\<exists>c. particles_run n steps = Inr c \<and> 0 \<le> c \<and> c < 1000000007)"
proof -
  have lcg: "0 \<le> lcg_loop k a 0 0 \<and> lcg_loop k a 0 0 < 2147483647" for k a
    using lcg_loop_range [of 0 k a 0] by (simp add: lcg_MODV_def)
  have run: "\<exists>c. particles_run k st = Inr c \<and> 0 \<le> c \<and> c < 1000000007" for k st
    using particles_run_returns [of k st] by (simp add: particles_MODV_def)
  from run [of particles_N STEPS] obtain c
    where c: "particles_run particles_N STEPS = Inr c" "0 \<le> c" "c < 1000000007"
    by blast
  then have "main_particles = Inr (py_print (py_str c))"
    by (simp add: main_particles_def)
  with c have "\<exists>c. particles_run particles_N STEPS = Inr c
      \<and> main_particles = Inr (py_print (py_str c)) \<and> 0 \<le> c \<and> c < 1000000007"
    by blast
  with lcg [of lcg_N 1234567] lcg [of n x0] run [of n steps] show ?thesis
    by (simp add: main_lcg_hash_def lcg_acc_def)
qed

section \<open>Facts about the harness configuration\<close>

lemma str_join_snoc:
  "ds \<noteq> [] \<Longrightarrow> str_join sep (ds @ [b]) = str_join sep ds @ sep @ b"
  by (induction sep ds rule: str_join.induct) simp_all

lemma str_join_last:
  "ds \<noteq> [] \<Longrightarrow> last ds \<noteq> [] \<Longrightarrow>
   str_join sep ds \<noteq> [] \<and> last (str_join sep ds) = last (last ds)"
  by (induction sep ds rule: str_join.induct) auto

lemma abs_path_snoc:
  "abs_path (ds @ [b]) = (if ds = [] then ''/'' @ b else abs_path ds @ ''/'' @ b)"
  by (simp add: abs_path_def str_join_snoc)

lemma abs_path_last:
  assumes "ds \<noteq> []" "list_all plain_comp ds"
  shows "last (abs_path ds) \<noteq> CHR ''/''"
proof -
  from assms have pl: "plain_comp (last ds)" by (simp add: list_all_iff)
  then have ne: "last ds \<noteq> []" by (simp add: plain_comp_def)
  with assms have "str_join ''/'' ds \<noteq> []" "last (str_join ''/'' ds) = last (last ds)"
    using str_join_last [of ds "''/''"] by simp_all
  moreover have "last (last ds) \<noteq> CHR ''/''"
    using pl ne last_in_set [of "last ds"] unfolding plain_comp_def by metis
  ultimately show ?thesis by (simp add: abs_path_def)
qed

lemma endswith_char: "endswith s [c] \<longleftrightarrow> s \<noteq> [] \<and> last s = c"
proof (cases "s = []")
  case True
  then show ?thesis by (simp add: endswith_def)
next
  case False
  then have "s = butlast s @ [last s]" by simp
  then have "drop (length s - 1) s = [last s]"
    by (metis append_eq_conv_conj length_butlast)
  with False show ?thesis by (auto simp: endswith_def Suc_le_eq)
qed

lemma startswith_slash: "CHR ''/'' \<notin> set b \<Longrightarrow> \<not> startswith b ''/''"
  by (cases b) (auto simp: startswith_def)

lemma path_join_step_abs:
  assumes "list_all plain_comp ds" "CHR ''/'' \<notin> set b"
  shows "path_join_step (abs_path ds) b = abs_path (ds @ [b])"
proof (cases "ds = []")
  case True
  with assms show ?thesis
    by (simp add: path_join_step_def startswith_slash endswith_char abs_path_def)
next
  case False
  with assms have "last (abs_path ds) \<noteq> CHR ''/''" by (simp add: abs_path_last)
  moreover have "abs_path ds \<noteq> []" by (simp add: abs_path_def)
  ultimately show ?thesis using assms False
    by (simp add: path_join_step_def startswith_slash endswith_char abs_path_snoc)
qed

lemma str_split_nosep: "c \<notin> set w \<Longrightarrow> str_split c w = [w]"
  by (induction w) auto

lemma str_split_append:
  "c \<notin> set w \<Longrightarrow> str_split c (w @ c # rest) = w # str_split c rest"
  by (induction w) auto

lemma str_split_join:
  "ds \<noteq> [] \<Longrightarrow> \<forall>d \<in> set ds. c \<notin> set d \<Longrightarrow> str_split c (str_join [c] ds) = ds"
proof (induction "[c]" ds rule: str_join.induct)
  case 1
  then show ?case by simp
next
  case (2 w)
  then show ?case by (simp add: str_split_nosep)
next
  case (3 w v vs)
  then show ?case by (simp add: str_split_append)
qed

lemma str_split_abs_path:
  assumes "ds \<noteq> []" "\<forall>d \<in> set ds. CHR ''/'' \<notin> set d"
  shows "str_split (CHR ''/'') (abs_path ds) = [] # ds"
proof -
  have "str_split (CHR ''/'') ([] @ CHR ''/'' # str_join ''/'' ds)
      = [] # str_split (CHR ''/'') (str_join ''/'' ds)"
    by (rule str_split_append) simp
  with assms show ?thesis by (simp add: abs_path_def str_split_join)
qed

lemma normpath_fold_plain:
  "list_all plain_comp cs \<Longrightarrow>
   fold (\<lambda>c acc. normpath_step k acc c) cs acc = acc @ cs"
  by (induction cs arbitrary: acc) (simp_all add: normpath_step_def plain_comp_def)

lemma normpath_parent:
  assumes "list_all plain_comp cs"
  shows "normpath (abs_path (cs @ [''..''])) = abs_path (butlast cs)"
proof -
  let ?p = "abs_path (cs @ [''..''])"
  have slashfree: "\<forall>d \<in> set (cs @ [''..'']). CHR ''/'' \<notin> set d"
    using assms by (auto simp: list_all_iff plain_comp_def)
  have split: "str_split (CHR ''/'') ?p = [] # cs @ [''..'']"
    using str_split_abs_path [OF _ slashfree] by simp
  have hd_ne: "hd (cs @ [''..'']) \<noteq> [] \<and> hd (hd (cs @ [''..''])) \<noteq> CHR ''/''"
  proof (cases cs)
    case Nil
    then show ?thesis by simp
  next
    case (Cons c cs')
    with assms have "plain_comp c" by simp
    then have "c \<noteq> []" "CHR ''/'' \<notin> set c" by (simp_all add: plain_comp_def)
    then have "hd c \<noteq> CHR ''/''" by (cases c) auto
    with \<open>c \<noteq> []\<close> Cons show ?thesis by simp
  qed
  obtain a w ws where p: "?p = CHR ''/'' # a # w" and a: "a \<noteq> CHR ''/''"
  proof (cases cs)
    case Nil
    then have "?p = CHR ''/'' # CHR ''.'' # ''.''" by (simp add: abs_path_def)
    then show ?thesis using that by blast
  next
    case (Cons c cs')
    with hd_ne obtain a c' where c: "c = a # c'" and "a \<noteq> CHR ''/''" by (cases c) auto
    have "str_join ''/'' (cs @ [''..'']) = c @ ''/'' @ str_join ''/'' (cs' @ [''..''])"
      using Cons by (cases "cs' @ [''..'']") simp_all
    then have "?p = CHR ''/'' # a # (c' @ ''/'' @ str_join ''/'' (cs' @ [''..'']))"
      by (simp add: abs_path_def c)
    with \<open>a \<noteq> CHR ''/''\<close> show ?thesis using that by blast
  qed
  have init: "startswith ?p ''/''" "\<not> startswith ?p ''//''"
    using a by (simp_all add: p startswith_def)
  have fold: "fold (\<lambda>c acc. normpath_step 1 acc c) ([] # cs @ [''..'']) [] = butlast cs"
  proof -
    have "fold (\<lambda>c acc. normpath_step 1 acc c) ([] # cs @ [''..'']) []
        = normpath_step 1 (fold (\<lambda>c acc. normpath_step 1 acc c) cs []) ''..''"
      by (simp add: normpath_step_def)
    also have "\<dots> = normpath_step 1 cs ''..''"
      using assms by (simp add: normpath_fold_plain)
    also have "\<dots> = butlast cs"
    proof (cases "cs = []")
      case True
      then show ?thesis by (simp add: normpath_step_def)
    next
      case False
      with assms have "plain_comp (last cs)" by (simp add: list_all_iff)
      then have "last cs \<noteq> ''..''" by (simp add: plain_comp_def)
      with False show ?thesis by (simp add: normpath_step_def)
    qed
    finally show ?thesis .
  qed
  have "?p \<noteq> []" by (simp add: p)
  then show ?thesis
    using init split fold by (simp add: normpath_def Let_def abs_path_def)
qed

lemma dirname_abs_path:
  assumes "list_all plain_comp cs" "CHR ''/'' \<notin> set nm"
  shows "dirname (abs_path (cs @ [nm])) = abs_path cs"
proof -
  define pre where "pre = (if cs = [] then [] else abs_path cs)"
  have p: "abs_path (cs @ [nm]) = pre @ CHR ''/'' # nm"
    by (simp add: abs_path_snoc pre_def)
  have "\<And>a. a \<in> set (rev nm) \<Longrightarrow> a \<noteq> CHR ''/''" using assms(2) by auto
  then have "takeWhile (\<lambda>a. a \<noteq> CHR ''/'') (rev nm @ CHR ''/'' # rev pre)
      = rev nm @ takeWhile (\<lambda>a. a \<noteq> CHR ''/'') (CHR ''/'' # rev pre)"
    by (rule takeWhile_append2)
  then have "takeWhile (\<lambda>a. a \<noteq> CHR ''/'') (rev nm @ CHR ''/'' # rev pre) = rev nm"
    by simp
  then have rfind: "str_rfind (CHR ''/'') (pre @ CHR ''/'' # nm) + 1 = int (length pre) + 1"
    by (simp add: str_rfind_def)
  have head: "take (nat (int (length pre) + 1)) (pre @ CHR ''/'' # nm) = pre @ ''/''"
    by (simp add: nat_add_distrib)
  show ?thesis
  proof (cases "cs = []")
    case True
    then have "pre = []" by (simp add: pre_def)
    then show ?thesis
      using True rfind head by (simp add: dirname_def Let_def p abs_path_def)
  next
    case False
    then have pre: "pre = abs_path cs" by (simp add: pre_def)
    have last: "last pre \<noteq> CHR ''/''" using False assms pre by (simp add: abs_path_last)
    have ne: "pre \<noteq> []" by (simp add: pre abs_path_def)
    have notall: "pre @ ''/'' \<noteq> replicate (length (pre @ ''/'')) (CHR ''/'')"
    proof
      assume eq: "pre @ ''/'' = replicate (length (pre @ ''/'')) (CHR ''/'')"
      then have "set (pre @ ''/'') = set (replicate (length (pre @ ''/'')) (CHR ''/''))"
        by (rule arg_cong)
      moreover have "last pre \<in> set (pre @ ''/'')" using ne by simp
      ultimately have "last pre \<in> set (replicate (length (pre @ ''/'')) (CHR ''/''))"
        by blast
      then have "last pre = CHR ''/''" by (simp only: in_set_replicate)
      with last show False by simp
    qed
    have "dropWhile (\<lambda>a. a = CHR ''/'') (rev pre) = rev pre"
      using ne last by (cases "rev pre") (auto simp: last_rev hd_rev)
    then have strip: "str_rstrip (CHR ''/'') (pre @ ''/'') = pre"
      by (simp add: str_rstrip_def)
    from rfind head notall strip show ?thesis
      by (simp add: dirname_def Let_def p pre del: replicate.simps length_append)
  qed
qed

lemma chapter_dir_abs_path:
  assumes "list_all plain_comp cs"
  shows "abspath cwd (path_join (abs_path cs) [''..'']) = abs_path (butlast cs)"
proof -
  have j: "path_join (abs_path cs) [''..''] = abs_path (cs @ [''..''])"
    using assms by (simp add: path_join_def path_join_step_abs)
  have "isabs (abs_path (cs @ [''..'']))" by (simp add: isabs_def startswith_def abs_path_def)
  with j assms show ?thesis by (simp add: abspath_def normpath_parent)
qed

lemma butlast_plain: "list_all plain_comp cs \<Longrightarrow> list_all plain_comp (butlast cs)"
  by (auto simp: list_all_iff dest: in_set_butlastD)

lemma build_pyxc_abs_path:
  assumes "list_all plain_comp ds"
  shows "path_join (abs_path ds) [''build'', ''pyxc''] = abs_path (ds @ [''build'', ''pyxc''])"
proof -
  have "plain_comp ''build''" by (simp add: plain_comp_def)
  with assms have "list_all plain_comp (ds @ [''build''])" by simp
  then have "path_join_step (abs_path (ds @ [''build''])) ''pyxc'' = abs_path ((ds @ [''build'']) @ [''pyxc''])"
    by (rule path_join_step_abs) simp
  moreover have "path_join_step (abs_path ds) ''build'' = abs_path (ds @ [''build''])"
    using assms by (rule path_join_step_abs) simp
  ultimately show ?thesis by (simp add: path_join_def)
qed

lemma lit_cfg_substitutions:
  "substitutions (lit_cfg cwd file c) = substitutions c @
     [(''%pyxc'', path_join (abspath cwd (path_join (dirname file) [''..''])) [''build'', ''pyxc''])]"
  by (simp add: lit_cfg_def Let_def)

lemma lit_cfg_roots:
  "test_source_root (lit_cfg cwd file c) = dirname file"
  "test_exec_root (lit_cfg cwd file c) = dirname file"
  "suffixes (lit_cfg cwd file c) = [''.pyxc'']"
  by (simp_all add: lit_cfg_def Let_def)

lemma lit_cfg_token_path:
  assumes "list_all plain_comp cs" "CHR ''/'' \<notin> set nm"
  shows "substitutions (lit_cfg cwd (abs_path (cs @ [nm])) c) = substitutions c @
     [(''%pyxc'', abs_path (butlast cs @ [''build'', ''pyxc'']))]"
  using assms
  by (simp add: lit_cfg_substitutions dirname_abs_path chapter_dir_abs_path
      build_pyxc_abs_path butlast_plain)

text \<open>
  Claim C6. The configuration file registers exactly one substitution, the token
  \<open>%pyxc\<close>, mapped to the parent directory of the test-source root, made absolute,
  joined with \<open>build\<close> and \<open>pyxc\<close>. For a configuration file at the absolute path
  with directory components \<open>cs\<close> that is the path with components
  \<open>butlast cs\<close>, \<open>build\<close>, \<open>pyxc\<close>.
\<close>

theorem lit_cfg_registers_pyxc:
  "substitutions (lit_cfg cwd file c) = substitutions c @
     [(''%pyxc'',
       path_join (abspath cwd (path_join (test_source_root (lit_cfg cwd file c)) [''..'']))
         [''build'', ''pyxc''])]
   \<and> (list_all plain_comp cs \<and> CHR ''/'' \<notin> set nm \<longrightarrow>
        substitutions (lit_cfg cwd (abs_path (cs @ [nm])) c) = substitutions c @
          [(''%pyxc'', abs_path (butlast cs @ [''build'', ''pyxc'']))])"
proof (intro conjI impI)
  show "substitutions (lit_cfg cwd file c) = substitutions c @
     [(''%pyxc'',
       path_join (abspath cwd (path_join (test_source_root (lit_cfg cwd file c)) [''..'']))
         [''build'', ''pyxc''])]"
    by (simp add: lit_cfg_substitutions lit_cfg_roots)
next
  assume "list_all plain_comp cs \<and> CHR ''/'' \<notin> set nm"
  then show "substitutions (lit_cfg cwd (abs_path (cs @ [nm])) c) = substitutions c @
          [(''%pyxc'', abs_path (butlast cs @ [''build'', ''pyxc'']))]"
    by (intro lit_cfg_token_path) simp_all
qed

theorem lit_cfg_registers_pyxc_witness:
  "substitutions
     (lit_cfg ''/home/user'' ''/repo/code/chapter06/test/lit.cfg.py''
        \<lparr>name = ''<unnamed>'', test_format = None, suffixes = [], test_source_root = [],
         test_exec_root = [], substitutions = []\<rparr>)
   = [(''%pyxc'', ''/repo/code/chapter06/build/pyxc'')]"
proof -
  let ?c = "\<lparr>name = ''<unnamed>'', test_format = None, suffixes = [], test_source_root = [],
         test_exec_root = [], substitutions = []\<rparr>"
  let ?cs = "[''repo'', ''code'', ''chapter06'', ''test'']"
  have hyp: "list_all plain_comp ?cs \<and> CHR ''/'' \<notin> set ''lit.cfg.py''"
    by (simp add: plain_comp_def)
  have "substitutions (lit_cfg ''/home/user'' (abs_path (?cs @ [''lit.cfg.py''])) ?c)
      = substitutions ?c @ [(''%pyxc'', abs_path (butlast ?cs @ [''build'', ''pyxc'']))]"
    using lit_cfg_registers_pyxc [where cs = ?cs and nm = "''lit.cfg.py''", THEN conjunct2] hyp
    by blast
  then show ?thesis by (simp add: abs_path_def)
qed

text \<open>
  Claim C7. After the configuration file has run, the test-execution root equals the
  test-source root, which is the directory of the configuration file, and the suffixes
  are exactly \<open>[".pyxc"]\<close>.
\<close>

theorem lit_cfg_roots_and_suffixes:
  "test_exec_root (lit_cfg cwd file c) = test_source_root (lit_cfg cwd file c)
   \<and> test_source_root (lit_cfg cwd file c) = dirname file
   \<and> suffixes (lit_cfg cwd file c) = [''.pyxc'']
   \<and> (list_all plain_comp cs \<and> CHR ''/'' \<notin> set nm \<longrightarrow>
        test_source_root (lit_cfg cwd (abs_path (cs @ [nm])) c) = abs_path cs)"
  by (simp add: lit_cfg_roots dirname_abs_path)

theorem lit_cfg_roots_and_suffixes_witness:
  "test_source_root
     (lit_cfg ''/home/user'' ''/repo/code/chapter06/test/lit.cfg.py''
        \<lparr>name = ''<unnamed>'', test_format = None, suffixes = [], test_source_root = [],
         test_exec_root = [], substitutions = []\<rparr>)
   = ''/repo/code/chapter06/test''"
proof -
  let ?c = "\<lparr>name = ''<unnamed>'', test_format = None, suffixes = [], test_source_root = [],
         test_exec_root = [], substitutions = []\<rparr>"
  let ?cs = "[''repo'', ''code'', ''chapter06'', ''test'']"
  have hyp: "list_all plain_comp ?cs \<and> CHR ''/'' \<notin> set ''lit.cfg.py''"
    by (simp add: plain_comp_def)
  have "test_source_root (lit_cfg ''/home/user'' (abs_path (?cs @ [''lit.cfg.py''])) ?c)
      = abs_path ?cs"
    using lit_cfg_roots_and_suffixes [where cs = ?cs and nm = "''lit.cfg.py''",
        THEN conjunct2, THEN conjunct2, THEN conjunct2] hyp
    by blast
  then show ?thesis by (simp add: abs_path_def)
qed

section \<open>What the kernels write\<close>

lemma exec_loopsum_appends:
  "exec_loopsum w = Inr (w\<lparr>stdout := stdout w @ py_print ''2500500025000000.000000''\<rparr>)"
proof -
  have "py_float 2500500025000000 = Inr 2500500025000000"
    by (rule py_float_exact) simp
  moreover have "format_6f 2500500025000000 = ''2500500025000000.000000''"
    by (simp add: format_6f_def py_str_def digits_of.simps digit_char_def)
  ultimately show ?thesis
    by (simp add: exec_loopsum_def loopsum_10000 print_to_def)
qed

lemma exec_fib_appends:
  "exec_fib w = Inr (w\<lparr>stdout := stdout w @ py_print ''165580141.000000''\<rparr>)"
proof -
  have "py_float 165580141 = Inr 165580141"
    by (rule py_float_exact) simp
  then show ?thesis
    by (simp add: exec_fib_def fib_41 format_165580141 print_to_def)
qed

lemma exec_primecount_appends:
  "exec_primecount w = Some (Inr (w\<lparr>stdout := stdout w @ py_print ''2900.000000''\<rparr>))"
proof -
  have "main_primecount_loop [0..9] 0 = Some (0 + int (length [0..9::int]) * 290)"
    by (rule main_primecount_loop_returns) (rule count_primes_1900)
  then have loop: "main_primecount_loop [0..9] 0 = Some 2900" by simp
  have "py_float 2900 = Inr 2900" by (rule py_float_exact) simp
  moreover have "format_6f 2900 = ''2900.000000''"
    by (simp add: format_6f_def py_str_def digits_of.simps digit_char_def)
  ultimately show ?thesis
    by (simp add: exec_primecount_def loop print_to_def)
qed

lemma exec_lcg_hash_appends:
  "exec_lcg_hash w = w\<lparr>stdout := stdout w @ main_lcg_hash\<rparr>"
  by (simp add: exec_lcg_hash_def main_lcg_hash_def lcg_acc_def print_to_def)

lemma exec_particles_appends:
  "particles_run particles_N STEPS = Inr c \<Longrightarrow>
   main_particles = Inr (py_print (py_str c))
   \<and> exec_particles w = Inr (w\<lparr>stdout := stdout w @ py_print (py_str c)\<rparr>)"
  by (simp add: exec_particles_def main_particles_def print_to_def)

text \<open>
  Claim C8. The main of every kernel returns and writes exactly one line to standard
  output, and performs no input, filesystem or environment access: run in any world,
  the kernel leaves the standard input, the files and the environment as they were and
  appends to standard output one line, which is the same line in every world.
\<close>

theorem kernels_write_one_line:
  "(\<exists>out. one_line out \<and> main_loopsum = Inr out
       \<and> (\<forall>w. exec_loopsum w = Inr (w\<lparr>stdout := stdout w @ out\<rparr>)))
   \<and> (\<exists>out. one_line out \<and> main_fib = Inr out
       \<and> (\<forall>w. exec_fib w = Inr (w\<lparr>stdout := stdout w @ out\<rparr>)))
   \<and> (\<exists>out. one_line out \<and> main_primecount = Some (Inr out)
       \<and> (\<forall>w. exec_primecount w = Some (Inr (w\<lparr>stdout := stdout w @ out\<rparr>))))
   \<and> (\<exists>out. one_line out \<and> main_lcg_hash = out
       \<and> (\<forall>w. exec_lcg_hash w = w\<lparr>stdout := stdout w @ out\<rparr>))
   \<and> (\<exists>out. one_line out \<and> main_particles = Inr out
       \<and> (\<forall>w. exec_particles w = Inr (w\<lparr>stdout := stdout w @ out\<rparr>)))"
proof -
  have fmt: "one_line (py_print (format_6f v))" for v
    by (rule one_line_print) (rule format_6f_no_newline)
  have str: "one_line (py_print (py_str v))" for v
    by (rule one_line_print) (rule py_str_no_newline)
  have "one_line (py_print ''2500500025000000.000000'')"
    using fmt [of 2500500025000000]
    by (simp add: format_6f_def py_str_def digits_of.simps digit_char_def)
  then have 1: "\<exists>out. one_line out \<and> main_loopsum = Inr out
       \<and> (\<forall>w. exec_loopsum w = Inr (w\<lparr>stdout := stdout w @ out\<rparr>))"
    using main_loopsum_output exec_loopsum_appends by blast
  have "one_line (py_print ''165580141.000000'')"
    using fmt [of 165580141] by (simp add: format_165580141)
  then have 2: "\<exists>out. one_line out \<and> main_fib = Inr out
       \<and> (\<forall>w. exec_fib w = Inr (w\<lparr>stdout := stdout w @ out\<rparr>))"
    using main_fib_output exec_fib_appends by blast
  have "format_6f 2900 = ''2900.000000''"
    by (simp add: format_6f_def py_str_def digits_of.simps digit_char_def)
  then have "one_line (py_print ''2900.000000'')"
    using fmt [of 2900] by simp
  then have 3: "\<exists>out. one_line out \<and> main_primecount = Some (Inr out)
       \<and> (\<forall>w. exec_primecount w = Some (Inr (w\<lparr>stdout := stdout w @ out\<rparr>)))"
    using main_primecount_output exec_primecount_appends by blast
  have "one_line main_lcg_hash"
    by (simp add: main_lcg_hash_def str)
  then have 4: "\<exists>out. one_line out \<and> main_lcg_hash = out
       \<and> (\<forall>w. exec_lcg_hash w = w\<lparr>stdout := stdout w @ out\<rparr>)"
    using exec_lcg_hash_appends by blast
  obtain c where "particles_run particles_N STEPS = Inr c"
    using particles_run_returns [of particles_N STEPS] by blast
  then have 5: "\<exists>out. one_line out \<and> main_particles = Inr out
       \<and> (\<forall>w. exec_particles w = Inr (w\<lparr>stdout := stdout w @ out\<rparr>))"
    using exec_particles_appends [of c] str [of c] by blast
  from 1 2 3 4 5 show ?thesis by blast
qed

end
